theory Spec2Isabelle
  imports Main "HOL-Library.Word" "HOL-Library.Sublist"
begin

section \<open>The delegate of package db (src/db/delegate.go)\<close>

subsection \<open>Data\<close>

type_synonym byte = "8 word"

text \<open>A non-nil Go \<open>error\<close> value, identified by its message; the nil error is \<open>None\<close>.\<close>

datatype error = Error string

text \<open>\<open>type Data struct { Domain string; Action string; RawParams []byte }\<close>\<close>

record Data =
  Domain :: string
  Action :: string
  RawParams :: "byte list"

text \<open>
  \<open>type Func func(context.Context, Data) error\<close>. The type \<open>'c\<close> stands for
  \<open>context.Context\<close>, the cancellation token. A registered function acts on the
  program state outside the delegate, of type \<open>'w\<close>: it receives that state, and gives
  back its error result and the state it leaves behind. A \<open>Func\<close> here is a
  function that returns; registered functions that panic are \<open>GoFunc\<close> below. The map
  of the delegate is not part of the state a registered function sees: a function that
  calls back into \<open>Register\<close> is not modelled.
\<close>

type_synonym ('c, 'w) Func = "'c \<Rightarrow> Data \<Rightarrow> 'w \<Rightarrow> error option \<times> 'w"

text \<open>
  The delegate works through two collaborators: the logger \<open>d.log\<close>, of a package
  outside this repository, and the registered functions. The model records each call
  the delegate makes on them, in the order made. A logger call carries its level, the
  context, the message and the remaining arguments (\<open>...any\<close>) as passed.
\<close>

datatype level = INFO | ERROR

datatype logval = Str string | Bytes "byte list" | Err error

datatype ('c, 'f) call =
    Log level 'c string "logval list"
  | Invoke (handler: 'f) (token: 'c) (event: Data)

fun is_Invoke :: "('c, 'f) call \<Rightarrow> bool" where
  "is_Invoke (Invoke fn ctx data) = True"
| "is_Invoke (Log l ctx msg args) = False"

text \<open>
  \<open>type Delegate struct { log *logging.Logger; funcs map[domain]map[action][]Func }\<close>,
  together with what lies behind its pointers: \<open>funcs\<close> is the two-level map,
  \<open>trace\<close> the calls made so far on the logger and on registered functions (oldest
  first), \<open>world\<close> the program state the registered functions act on. The type \<open>'f\<close>
  is that of the registered functions; \<open>state\<close> is the delegate whose functions
  return.
\<close>

record ('c, 'w, 'f) Delegate =
  funcs :: "string \<rightharpoonup> (string \<rightharpoonup> 'f list)"
  trace :: "('c, 'f) call list"
  world :: 'w

type_synonym ('c, 'w) state = "('c, 'w, ('c, 'w) Func) Delegate"

subsection \<open>Operations\<close>

text \<open>
  \<open>New(log)\<close> (lines 27-32): an empty map. The logger it is given has received
  nothing from this delegate yet, so the trace is empty; \<open>w\<close> is the program state at
  that moment.
\<close>

definition New :: "'w \<Rightarrow> ('c, 'w) state" where
  "New w = \<lparr>funcs = Map.empty, trace = [], world = w\<rparr>"

text \<open>\<open>d.log.Info(ctx, msg, args...)\<close> and \<open>d.log.Error(ctx, msg, args...)\<close>.\<close>

definition log_Info ::
  "'c \<Rightarrow> string \<Rightarrow> logval list \<Rightarrow> ('c, 'w, 'f) Delegate \<Rightarrow> ('c, 'w, 'f) Delegate" where
  "log_Info ctx msg args s = s\<lparr>trace := trace s @ [Log INFO ctx msg args]\<rparr>"

definition log_Error ::
  "'c \<Rightarrow> string \<Rightarrow> logval list \<Rightarrow> ('c, 'w, 'f) Delegate \<Rightarrow> ('c, 'w, 'f) Delegate" where
  "log_Error ctx msg args s = s\<lparr>trace := trace s @ [Log ERROR ctx msg args]\<rparr>"

text \<open>
  \<open>Register\<close> (lines 35-45): the inner map is created when the domain is new; reading
  a missing action gives the nil slice; \<open>append\<close> puts \<open>fn\<close> at the end.
\<close>

definition Register ::
  "string \<Rightarrow> string \<Rightarrow> ('c, 'w) Func \<Rightarrow> ('c, 'w) state \<Rightarrow> ('c, 'w) state" where
  "Register domainType actionType fn s =
     (let aMap = (case funcs s domainType of None \<Rightarrow> Map.empty | Some m \<Rightarrow> m);
          fs = (case aMap actionType of None \<Rightarrow> [] | Some fs \<Rightarrow> fs)
      in s\<lparr>funcs := (funcs s)(domainType \<mapsto> aMap(actionType \<mapsto> fs @ [fn]))\<rparr>)"

text \<open>
  The body of \<open>for _, fn := range funcs\<close> (lines 55-61): log "sending", call \<open>fn\<close>,
  log its error when it is not nil, go on with the next function.
\<close>

fun Call_loop ::
  "'c \<Rightarrow> Data \<Rightarrow> ('c, 'w) Func list \<Rightarrow> ('c, 'w) state \<Rightarrow> ('c, 'w) state" where
  "Call_loop ctx data [] s = s"
| "Call_loop ctx data (fn # fns) s =
     (let s1 = log_Info ctx ''delegate call'' [Str ''status'', Str ''sending''] s;
          (err, w) = fn ctx data (world s1);
          s2 = s1\<lparr>trace := trace s1 @ [Invoke fn ctx data], world := w\<rparr>;
          s3 = (case err of
                  None \<Rightarrow> s2
                | Some e \<Rightarrow> log_Error ctx ''delegate call'' [Str ''msg'', Err e] s2)
      in Call_loop ctx data fns s3)"

text \<open>
  \<open>Call\<close> (lines 49-66) for registered functions that return. The deferred \<open>Info\<close>
  runs when the function leaves, which is then after the lookups and the loop; its
  arguments are fixed where \<open>defer\<close> stands. The result is the \<open>return nil\<close> of
  line 65.
\<close>

definition Call :: "'c \<Rightarrow> Data \<Rightarrow> ('c, 'w) state \<Rightarrow> error option \<times> ('c, 'w) state" where
  "Call ctx data s =
     (let s1 = log_Info ctx ''delegate call''
                 [Str ''status'', Str ''started'', Str ''domain'', Str (Domain data),
                  Str ''action'', Str (Action data), Str ''params'', Bytes (RawParams data)] s;
          s2 = (case funcs s1 (Domain data) of
                  None \<Rightarrow> s1
                | Some dMap \<Rightarrow>
                    (case dMap (Action data) of
                       None \<Rightarrow> s1
                     | Some fs \<Rightarrow> Call_loop ctx data fs s1));
          s3 = log_Info ctx ''delegate call'' [Str ''status'', Str ''completed''] s2
      in (None, s3))"

subsection \<open>Registered functions that panic\<close>

text \<open>
  A Go function of type \<open>Func\<close> may also leave by a panic. \<open>Call\<close> above reads the
  source for registered functions that return; \<open>Call_unwind\<close> below reads the same
  lines for registered functions that return or panic. A call of such a function
  gives its outcome, the error result or the value of the panic, and the program state
  it leaves behind.
\<close>

datatype outcome = Returns "error option" | Panics string

type_synonym ('c, 'w) GoFunc = "'c \<Rightarrow> Data \<Rightarrow> 'w \<Rightarrow> outcome \<times> 'w"

type_synonym ('c, 'w) gostate = "('c, 'w, ('c, 'w) GoFunc) Delegate"

text \<open>
  The loop (lines 55-61) where \<open>fn\<close> may panic: line 58 has no \<open>recover\<close>, so the
  panic leaves the loop at once, with neither the error entry nor the functions that
  follow. The result is the value of the panic, if there was one.
\<close>

fun Call_loop_unwind ::
  "'c \<Rightarrow> Data \<Rightarrow> ('c, 'w) GoFunc list \<Rightarrow> ('c, 'w) gostate \<Rightarrow> string option \<times> ('c, 'w) gostate" where
  "Call_loop_unwind ctx data [] s = (None, s)"
| "Call_loop_unwind ctx data (fn # fns) s =
     (let s1 = log_Info ctx ''delegate call'' [Str ''status'', Str ''sending''] s;
          (r, w) = fn ctx data (world s1);
          s2 = s1\<lparr>trace := trace s1 @ [Invoke fn ctx data], world := w\<rparr>
      in case r of
           Panics v \<Rightarrow> (Some v, s2)
         | Returns None \<Rightarrow> Call_loop_unwind ctx data fns s2
         | Returns (Some e) \<Rightarrow>
             Call_loop_unwind ctx data fns
               (log_Error ctx ''delegate call'' [Str ''msg'', Err e] s2))"

text \<open>
  \<open>defer\<close> (line 51): the deferred call runs when the body leaves, by a return or by a
  panic, and the outcome of the body passes through.
\<close>

definition deferred :: "('s \<Rightarrow> 's) \<Rightarrow> ('s \<Rightarrow> outcome \<times> 's) \<Rightarrow> 's \<Rightarrow> outcome \<times> 's" where
  "deferred call body s = (case body s of (r, s') \<Rightarrow> (r, call s'))"

text \<open>\<open>Call\<close> (lines 49-66) with its \<open>defer\<close>: a panic of a registered function
  becomes the outcome of \<open>Call\<close>, otherwise line 65 returns nil.\<close>

definition Call_unwind :: "'c \<Rightarrow> Data \<Rightarrow> ('c, 'w) gostate \<Rightarrow> outcome \<times> ('c, 'w) gostate" where
  "Call_unwind ctx data s =
     (let s1 = log_Info ctx ''delegate call''
                 [Str ''status'', Str ''started'', Str ''domain'', Str (Domain data),
                  Str ''action'', Str (Action data), Str ''params'', Bytes (RawParams data)] s
      in deferred (log_Info ctx ''delegate call'' [Str ''status'', Str ''completed''])
           (\<lambda>s1. case funcs s1 (Domain data) of
                    None \<Rightarrow> (Returns None, s1)
                  | Some dMap \<Rightarrow>
                      (case dMap (Action data) of
                         None \<Rightarrow> (Returns None, s1)
                       | Some fs \<Rightarrow>
                           (case Call_loop_unwind ctx data fs s1 of
                              (None, s2) \<Rightarrow> (Returns None, s2)
                            | (Some v, s2) \<Rightarrow> (Panics v, s2))))
           s1)"

text \<open>A function that returns, taken as a Go function, and a delegate of such
  functions taken as a delegate of Go functions.\<close>

definition returning :: "('c, 'w) Func \<Rightarrow> ('c, 'w) GoFunc" where
  "returning fn ctx data w = (case fn ctx data w of (err, w') \<Rightarrow> (Returns err, w'))"

definition unwinding :: "('c, 'w) state \<Rightarrow> ('c, 'w) gostate" where
  "unwinding s =
     \<lparr>funcs = (\<lambda>dm. map_option (\<lambda>m ac. map_option (map returning) (m ac)) (funcs s dm)),
      trace = map (map_call id returning) (trace s),
      world = world s\<rparr>"

subsection \<open>Reading the map\<close>

text \<open>
  The two-level lookup that \<open>Call\<close> performs (lines 53-54): \<open>None\<close> when the domain
  is missing or the action is missing under it.
\<close>

definition lookup :: "('c, 'w) state \<Rightarrow> string \<Rightarrow> string \<Rightarrow> ('c, 'w) Func list option" where
  "lookup s dm ac = (case funcs s dm of None \<Rightarrow> None | Some dMap \<Rightarrow> dMap ac)"

text \<open>The functions registered under a key, in their order; none when the lookup misses.\<close>

definition handlers_at :: "('c, 'w) state \<Rightarrow> string \<Rightarrow> string \<Rightarrow> ('c, 'w) Func list" where
  "handlers_at s dm ac = (case lookup s dm ac of None \<Rightarrow> [] | Some fs \<Rightarrow> fs)"

text \<open>A sequence of \<open>Register\<close> calls, first to last, and the functions among them
  that were registered under one key.\<close>

definition Register_all ::
  "(string \<times> string \<times> ('c, 'w) Func) list \<Rightarrow> ('c, 'w) state \<Rightarrow> ('c, 'w) state" where
  "Register_all regs s = foldl (\<lambda>s (dm, ac, fn). Register dm ac fn s) s regs"

definition registered_under ::
  "string \<Rightarrow> string \<Rightarrow> (string \<times> string \<times> ('c, 'w) Func) list \<Rightarrow> ('c, 'w) Func list" where
  "registered_under dm ac regs =
     map (\<lambda>(d, a, fn). fn) (filter (\<lambda>(d, a, fn). d = dm \<and> a = ac) regs)"

text \<open>What the loop of \<open>Call\<close> does, written apart from the state: the program state
  after the functions have run one after the other, and the calls made on the way.\<close>

definition run_handlers :: "'c \<Rightarrow> Data \<Rightarrow> ('c, 'w) Func list \<Rightarrow> 'w \<Rightarrow> 'w" where
  "run_handlers ctx data fs w = foldl (\<lambda>w fn. snd (fn ctx data w)) w fs"

fun loop_calls ::
  "'c \<Rightarrow> Data \<Rightarrow> ('c, 'w) Func list \<Rightarrow> 'w \<Rightarrow> ('c, ('c, 'w) Func) call list" where
  "loop_calls ctx data [] w = []"
| "loop_calls ctx data (fn # fns) w =
     [Log INFO ctx ''delegate call'' [Str ''status'', Str ''sending''], Invoke fn ctx data]
     @ (case fst (fn ctx data w) of
          None \<Rightarrow> []
        | Some e \<Rightarrow> [Log ERROR ctx ''delegate call'' [Str ''msg'', Err e]])
     @ loop_calls ctx data fns (snd (fn ctx data w))"

definition started :: "'c \<Rightarrow> Data \<Rightarrow> ('c, 'f) call" where
  "started ctx data = Log INFO ctx ''delegate call''
     [Str ''status'', Str ''started'', Str ''domain'', Str (Domain data),
      Str ''action'', Str (Action data), Str ''params'', Bytes (RawParams data)]"

definition completed :: "'c \<Rightarrow> ('c, 'f) call" where
  "completed ctx = Log INFO ctx ''delegate call'' [Str ''status'', Str ''completed'']"

subsection \<open>The textual form of an event\<close>

text \<open>
  \<open>Data.String\<close> (lines 79-84) formats its three fields with the verb \<open>%#v\<close> of
  \<open>fmt.Sprintf\<close>. For a string argument that verb prints the Go-syntax form of the
  string, which is \<open>strconv.Quote\<close>: the string in double quotes, with the double
  quote and the backslash escaped by a backslash, printable characters copied, and
  every other character written as an escape sequence. These functions belong to Go's library,
  not to this repository; they are written out here as the library defines them
  (\<open>unicode/utf8\<close>: \<open>DecodeRuneInString\<close>, \<open>AppendRune\<close>, \<open>ValidRune\<close>;
  \<open>strconv\<close>: \<open>appendQuotedWith\<close>, \<open>appendEscapedRune\<close>). A Go string is a sequence
  of bytes, as \<open>string\<close> is here; a rune is a \<open>nat\<close>. Only the table of printable code
  points above ASCII is left open: it is the parameter \<open>tbl\<close>.
\<close>

definition lowerhex :: string where
  "lowerhex = ''0123456789abcdef''"

definition RuneError :: nat where "RuneError = 0xFFFD"
definition RuneSelf :: nat where "RuneSelf = 0x80"
definition MaxRune :: nat where "MaxRune = 0x10FFFF"

text \<open>The table \<open>first\<close> with \<open>acceptRanges\<close> of \<open>unicode/utf8\<close>: for a leading
  byte, the length of the sequence and the range allowed for its second byte.\<close>

definition first :: "nat \<Rightarrow> (nat \<times> nat \<times> nat) option" where
  "first b =
     (if 0xC2 \<le> b \<and> b \<le> 0xDF then Some (2, 0x80, 0xBF)
      else if b = 0xE0 then Some (3, 0xA0, 0xBF)
      else if 0xE1 \<le> b \<and> b \<le> 0xEC then Some (3, 0x80, 0xBF)
      else if b = 0xED then Some (3, 0x80, 0x9F)
      else if 0xEE \<le> b \<and> b \<le> 0xEF then Some (3, 0x80, 0xBF)
      else if b = 0xF0 then Some (4, 0x90, 0xBF)
      else if 0xF1 \<le> b \<and> b \<le> 0xF3 then Some (4, 0x80, 0xBF)
      else if b = 0xF4 then Some (4, 0x80, 0x8F)
      else None)"

text \<open>The rune at the head of \<open>s\<close> and its width in bytes; \<open>(RuneError, 1)\<close> for a
  byte that starts no valid encoding.\<close>

definition DecodeRuneInString :: "string \<Rightarrow> nat \<times> nat" where
  "DecodeRuneInString s =
     (let n = length s in
      if n < 1 then (RuneError, 0)
      else let s0 = of_char (s ! 0) in
        if s0 < RuneSelf then (s0, 1)
        else case first s0 of
            None \<Rightarrow> (RuneError, 1)
          | Some (sz, lo, hi) \<Rightarrow>
              if n < sz then (RuneError, 1)
              else let s1 = of_char (s ! 1) in
                if s1 < lo \<or> hi < s1 then (RuneError, 1)
                else if sz \<le> 2 then ((s0 mod 32) * 64 + s1 mod 64, 2)
                else let s2 = of_char (s ! 2) in
                  if s2 < 0x80 \<or> 0xBF < s2 then (RuneError, 1)
                  else if sz \<le> 3
                    then ((s0 mod 16) * 4096 + (s1 mod 64) * 64 + s2 mod 64, 3)
                  else let s3 = of_char (s ! 3) in
                    if s3 < 0x80 \<or> 0xBF < s3 then (RuneError, 1)
                    else ((s0 mod 8) * 262144 + (s1 mod 64) * 4096
                            + (s2 mod 64) * 64 + s3 mod 64, 4))"

definition AppendRune :: "nat \<Rightarrow> string" where
  "AppendRune r =
     (if r \<le> 0x7F then [char_of r]
      else if r \<le> 0x7FF then [char_of (0xC0 + r div 64), char_of (0x80 + r mod 64)]
      else if r > MaxRune \<or> (0xD800 \<le> r \<and> r \<le> 0xDFFF)
        then [char_of (0xEF :: nat), char_of (0xBF :: nat), char_of (0xBD :: nat)]
      else if r \<le> 0xFFFF
        then [char_of (0xE0 + r div 4096), char_of (0x80 + (r div 64) mod 64),
              char_of (0x80 + r mod 64)]
      else [char_of (0xF0 + r div 262144), char_of (0x80 + (r div 4096) mod 64),
            char_of (0x80 + (r div 64) mod 64), char_of (0x80 + r mod 64)])"

definition ValidRune :: "nat \<Rightarrow> bool" where
  "ValidRune r = (r < 0xD800 \<or> (0xDFFF < r \<and> r \<le> MaxRune))"

text \<open>\<open>strconv.IsPrint\<close>: in ASCII, the characters from space to \<open>~\<close>.\<close>

definition IsPrint :: "(nat \<Rightarrow> bool) \<Rightarrow> nat \<Rightarrow> bool" where
  "IsPrint tbl r = (if r < RuneSelf then 0x20 \<le> r \<and> r \<le> 0x7E else tbl r)"

text \<open>The hexadecimal digits of \<open>r\<close> at the given shifts, as in
  \<open>lowerhex[r>>uint(s)&0xF]\<close>.\<close>

definition hexdigits :: "nat list \<Rightarrow> nat \<Rightarrow> string" where
  "hexdigits shifts r = map (\<lambda>s. lowerhex ! ((r div 2 ^ s) mod 16)) shifts"

text \<open>\<open>appendEscapedRune\<close> for the double quote, with \<open>ASCIIonly\<close> and
  \<open>graphicOnly\<close> false, as \<open>Quote\<close> calls it.\<close>

definition appendEscapedRune :: "(nat \<Rightarrow> bool) \<Rightarrow> nat \<Rightarrow> string" where
  "appendEscapedRune tbl r =
     (if r = 0x22 \<or> r = 0x5C then [CHR 0x5C, char_of r]
      else if IsPrint tbl r then AppendRune r
      else if r = 0x07 then [CHR 0x5C, CHR ''a'']
      else if r = 0x08 then [CHR 0x5C, CHR ''b'']
      else if r = 0x0C then [CHR 0x5C, CHR ''f'']
      else if r = 0x0A then [CHR 0x5C, CHR ''n'']
      else if r = 0x0D then [CHR 0x5C, CHR ''r'']
      else if r = 0x09 then [CHR 0x5C, CHR ''t'']
      else if r = 0x0B then [CHR 0x5C, CHR ''v'']
      else if r < 0x20 \<or> r = 0x7F then [CHR 0x5C, CHR ''x''] @ hexdigits [4, 0] (r mod 256)
      else if \<not> ValidRune r then [CHR 0x5C, CHR ''u''] @ hexdigits [12, 8, 4, 0] RuneError
      else if r < 0x10000 then [CHR 0x5C, CHR ''u''] @ hexdigits [12, 8, 4, 0] r
      else [CHR 0x5C, CHR ''U''] @ hexdigits [28, 24, 20, 16, 12, 8, 4, 0] r)"

text \<open>The loop of \<open>appendQuotedWith\<close>: take the next rune, write it escaped (an
  invalid byte as backslash, x and two digits), go on behind it.\<close>

definition next_rune :: "string \<Rightarrow> nat \<times> nat" where
  "next_rune s =
     (if of_char (s ! 0) \<ge> RuneSelf then DecodeRuneInString s else (of_char (s ! 0), 1))"

function quote_loop :: "(nat \<Rightarrow> bool) \<Rightarrow> string \<Rightarrow> string" where
  "quote_loop tbl s =
     (if length s > 0
      then (if snd (next_rune s) = 1 \<and> fst (next_rune s) = RuneError
            then [CHR 0x5C, CHR ''x''] @ hexdigits [4, 0] (of_char (s ! 0))
            else appendEscapedRune tbl (fst (next_rune s)))
           @ quote_loop tbl (drop (snd (next_rune s)) s)
      else [])"
  by pat_completeness auto
termination
proof (relation "measure (\<lambda>(tbl, s). length s)")
  show "wf (measure (\<lambda>(tbl :: nat \<Rightarrow> bool, s :: string). length s))"
    by simp
next
  fix tbl :: "nat \<Rightarrow> bool" and s :: string
  assume "0 < length s"
  moreover from this have "0 < snd (next_rune s)"
    by (simp add: next_rune_def DecodeRuneInString_def Let_def split: option.split prod.split)
  ultimately show "((tbl, drop (snd (next_rune s)) s), (tbl, s)) \<in> measure (\<lambda>(tbl, s). length s)"
    by simp
qed

declare quote_loop.simps [simp del]

definition Quote :: "(nat \<Rightarrow> bool) \<Rightarrow> string \<Rightarrow> string" where
  "Quote tbl s = [CHR 0x22] @ quote_loop tbl s @ [CHR 0x22]"

text \<open>The conversion \<open>string(d.RawParams)\<close>: the same bytes, as a string.\<close>

definition string_of_bytes :: "byte list \<Rightarrow> string" where
  "string_of_bytes bs = map (\<lambda>b. char_of (unat b)) bs"

text \<open>\<open>fmt.Sprintf("Event{Domain:%#v, Action:%#v, RawParams:%#v}", d.Domain, d.Action,
  string(d.RawParams))\<close>\<close>

definition String :: "(nat \<Rightarrow> bool) \<Rightarrow> Data \<Rightarrow> string" where
  "String tbl d =
     ''Event{Domain:'' @ Quote tbl (Domain d) @ '', Action:'' @ Quote tbl (Action d)
     @ '', RawParams:'' @ Quote tbl (string_of_bytes (RawParams d)) @ ''}''"

text \<open>
  A string that quoting copies as it is: it is valid UTF-8, and each of its runes is
  printable and is neither the double quote nor the backslash. \<open>copied\<close> says so of
  the rune at the head, \<open>unescaped\<close> of the whole string.
\<close>

definition copied :: "(nat \<Rightarrow> bool) \<Rightarrow> string \<Rightarrow> bool" where
  "copied tbl s \<longleftrightarrow>
     \<not> (snd (next_rune s) = 1 \<and> fst (next_rune s) = RuneError) \<and>
     fst (next_rune s) \<noteq> 0x22 \<and> fst (next_rune s) \<noteq> 0x5C \<and>
     IsPrint tbl (fst (next_rune s))"

function unescaped :: "(nat \<Rightarrow> bool) \<Rightarrow> string \<Rightarrow> bool" where
  "unescaped tbl s =
     (if length s > 0
      then (if copied tbl s then unescaped tbl (drop (snd (next_rune s)) s) else False)
      else True)"
  by pat_completeness auto
termination
proof (relation "measure (\<lambda>(tbl, s). length s)")
  show "wf (measure (\<lambda>(tbl :: nat \<Rightarrow> bool, s :: string). length s))"
    by simp
next
  fix tbl :: "nat \<Rightarrow> bool" and s :: string
  assume "0 < length s"
  moreover from this have "0 < snd (next_rune s)"
    by (simp add: next_rune_def DecodeRuneInString_def Let_def split: option.split prod.split)
  ultimately show "((tbl, drop (snd (next_rune s)) s), (tbl, s)) \<in> measure (\<lambda>(tbl, s). length s)"
    by simp
qed

declare unescaped.simps [simp del]

subsection \<open>Example values\<close>

text \<open>Two registered functions over a program state that lists who ran: one
  succeeds, one returns an error. The token is a \<open>bool\<close>, true when cancelled.\<close>

definition record_A :: "(bool, nat list) Func" where
  "record_A ctx data w = (None, w @ [1])"

definition failing_B :: "(bool, nat list) Func" where
  "failing_B ctx data w = (Some (Error ''boom''), w @ [2])"

text \<open>Events: one for the key (user, created); one whose fields quoting leaves as
  they are, the domain being "caf" and the two bytes of e with acute accent; one with a
  double quote in its domain and the payload bytes 1, 2, 3.\<close>

definition user_created :: Data where
  "user_created = \<lparr>Domain = ''user'', Action = ''created'', RawParams = []\<rparr>"

definition cafe_event :: Data where
  "cafe_event = \<lparr>Domain = [CHR ''c'', CHR ''a'', CHR ''f'', CHR 0xC3, CHR 0xA9], Action = ''y'',
     RawParams = [0x61, 0x62, 0x63]\<rparr>"

definition escaped_event :: Data where
  "escaped_event = \<lparr>Domain = [CHR ''a'', CHR 0x22, CHR ''b''], Action = ''y'', RawParams = [1, 2, 3]\<rparr>"

text \<open>A registered function that panics, and a delegate that holds it in front of
  one that returns.\<close>

definition panicking_P :: "(bool, nat list) GoFunc" where
  "panicking_P ctx data w = (Panics ''fault'', w @ [3])"

definition panicking_state :: "(bool, nat list) gostate" where
  "panicking_state =
     \<lparr>funcs = [''user'' \<mapsto> [''created'' \<mapsto> [panicking_P, returning record_A]]],
      trace = [], world = []\<rparr>"

section \<open>Properties\<close>

subsection \<open>The loop and the map\<close>

lemma Call_loop_eq:
  "Call_loop ctx data fs s =
     s\<lparr>trace := trace s @ loop_calls ctx data fs (world s),
       world := run_handlers ctx data fs (world s)\<rparr>"
proof (induction fs arbitrary: s)
  case Nil
  show ?case by (simp add: run_handlers_def)
next
  case (Cons fn fns)
  show ?case
    by (cases "fn ctx data (world s)")
       (simp add: Cons.IH run_handlers_def log_Info_def log_Error_def split: option.split)
qed

lemma Call_eq:
  "Call ctx data s =
     (None, s\<lparr>trace := trace s @ [started ctx data]
                 @ loop_calls ctx data (handlers_at s (Domain data) (Action data)) (world s)
                 @ [completed ctx],
              world := run_handlers ctx data (handlers_at s (Domain data) (Action data)) (world s)\<rparr>)"
  by (simp add: Call_def Let_def Call_loop_eq handlers_at_def lookup_def log_Info_def
        started_def completed_def run_handlers_def split: option.split)

lemma is_Invoke_started: "\<not> is_Invoke (started ctx data)"
  by (simp add: started_def)

lemma is_Invoke_completed: "\<not> is_Invoke (completed ctx)"
  by (simp add: completed_def)

lemma filter_loop_calls:
  "filter is_Invoke (loop_calls ctx data fs w) = map (\<lambda>fn. Invoke fn ctx data) fs"
  by (induction fs arbitrary: w) (simp_all split: option.split)

lemma filter_trace_Call:
  "filter is_Invoke (trace (snd (Call ctx data s))) =
     filter is_Invoke (trace s)
     @ map (\<lambda>fn. Invoke fn ctx data) (handlers_at s (Domain data) (Action data))"
  by (simp add: Call_eq filter_loop_calls is_Invoke_started is_Invoke_completed)

lemma world_Call:
  "world (snd (Call ctx data s)) =
     run_handlers ctx data (handlers_at s (Domain data) (Action data)) (world s)"
  by (simp add: Call_eq)

lemma loop_calls_append:
  "loop_calls ctx data (xs @ ys) w =
     loop_calls ctx data xs w @ loop_calls ctx data ys (run_handlers ctx data xs w)"
  by (induction xs arbitrary: w) (simp_all add: run_handlers_def)

lemma lookup_Register:
  "lookup (Register dm ac fn s) dm' ac' =
     (if dm' = dm \<and> ac' = ac then Some (handlers_at s dm ac @ [fn])
      else lookup s dm' ac')"
  by (simp add: lookup_def Register_def Let_def handlers_at_def split: option.split)

lemma handlers_at_Register:
  "handlers_at (Register dm ac fn s) dm' ac' =
     (if dm' = dm \<and> ac' = ac then handlers_at s dm ac @ [fn]
      else handlers_at s dm' ac')"
  by (simp add: handlers_at_def lookup_Register)

lemma trace_Register: "trace (Register dm ac fn s) = trace s"
  by (simp add: Register_def Let_def)

lemma world_Register: "world (Register dm ac fn s) = world s"
  by (simp add: Register_def Let_def)

lemma handlers_at_Register_all:
  "handlers_at (Register_all regs s) dm ac =
     handlers_at s dm ac @ registered_under dm ac regs"
proof (induction regs arbitrary: s)
  case Nil
  show ?case by (simp add: Register_all_def registered_under_def)
next
  case (Cons r regs)
  obtain d a fn where r: "r = (d, a, fn)" by (cases r)
  have "Register_all (r # regs) s = Register_all regs (Register d a fn s)"
    by (simp add: Register_all_def r)
  then show ?case
    using Cons.IH [of "Register d a fn s"]
    by (auto simp: handlers_at_Register registered_under_def r)
qed

lemma trace_Register_all: "trace (Register_all regs s) = trace s"
  unfolding Register_all_def
  by (induction regs arbitrary: s) (auto simp: trace_Register)

lemma world_Register_all: "world (Register_all regs s) = world s"
  unfolding Register_all_def
  by (induction regs arbitrary: s) (auto simp: world_Register)

lemma handlers_at_foldl_Register:
  "handlers_at (foldl (\<lambda>s fn. Register dm ac fn s) s fns) dm ac = handlers_at s dm ac @ fns"
  by (induction fns arbitrary: s) (simp_all add: handlers_at_Register)

lemma trace_foldl_Register: "trace (foldl (\<lambda>s fn. Register dm ac fn s) s fns) = trace s"
  by (induction fns arbitrary: s) (simp_all add: trace_Register)

lemma handlers_at_New: "handlers_at (New w) dm ac = []"
  by (simp add: handlers_at_def lookup_def New_def)

lemma trace_New: "trace (New w) = []"
  by (simp add: New_def)

lemma world_New: "world (New w) = w"
  by (simp add: New_def)

subsection \<open>Registered functions that panic\<close>

lemma trace_Call_loop_unwind:
  "\<exists>mid. trace (snd (Call_loop_unwind ctx data fs s)) = trace s @ mid"
proof (induction fs arbitrary: s)
  case Nil
  show ?case by simp
next
  case (Cons fn fns)
  let ?s1 = "log_Info ctx ''delegate call'' [Str ''status'', Str ''sending''] s"
  obtain r w where rw: "fn ctx data (world ?s1) = (r, w)"
    by (cases "fn ctx data (world ?s1)")
  let ?s2 = "?s1\<lparr>trace := trace ?s1 @ [Invoke fn ctx data], world := w\<rparr>"
  have s2: "trace ?s2 = trace s @ [Log INFO ctx ''delegate call'' [Str ''status'', Str ''sending''],
      Invoke fn ctx data]"
    by (simp add: log_Info_def)
  show ?case
  proof (cases r)
    case (Panics v)
    with rw s2 show ?thesis by simp
  next
    case (Returns err)
    show ?thesis
    proof (cases err)
      case None
      from Cons.IH [of ?s2] obtain mid where
        "trace (snd (Call_loop_unwind ctx data fns ?s2)) = trace ?s2 @ mid" ..
      with rw Returns None s2 show ?thesis by simp
    next
      case (Some e)
      let ?s3 = "log_Error ctx ''delegate call'' [Str ''msg'', Err e] ?s2"
      from Cons.IH [of ?s3] obtain mid where
        "trace (snd (Call_loop_unwind ctx data fns ?s3)) = trace ?s3 @ mid" ..
      moreover have "trace ?s3 = trace ?s2 @ [Log ERROR ctx ''delegate call'' [Str ''msg'', Err e]]"
        by (simp add: log_Error_def)
      ultimately show ?thesis
        using rw Returns Some s2 by simp
    qed
  qed
qed

lemma trace_Call_unwind:
  "\<exists>mid. trace (snd (Call_unwind ctx data s)) =
     trace s
     @ [Log INFO ctx ''delegate call''
          [Str ''status'', Str ''started'', Str ''domain'', Str (Domain data),
           Str ''action'', Str (Action data), Str ''params'', Bytes (RawParams data)]]
     @ mid
     @ [Log INFO ctx ''delegate call'' [Str ''status'', Str ''completed'']]"
proof -
  let ?s1 = "log_Info ctx ''delegate call''
                 [Str ''status'', Str ''started'', Str ''domain'', Str (Domain data),
                  Str ''action'', Str (Action data), Str ''params'', Bytes (RawParams data)] s"
  have s1: "trace ?s1 = trace s @ [Log INFO ctx ''delegate call''
          [Str ''status'', Str ''started'', Str ''domain'', Str (Domain data),
           Str ''action'', Str (Action data), Str ''params'', Bytes (RawParams data)]]"
    and f1: "funcs ?s1 = funcs s"
    by (simp_all add: log_Info_def)
  show ?thesis
  proof (cases "funcs s (Domain data)")
    case None
    then show ?thesis
      by (simp add: Call_unwind_def Let_def deferred_def log_Info_def)
  next
    case (Some dMap)
    show ?thesis
    proof (cases "dMap (Action data)")
      case None
      with Some show ?thesis
        by (simp add: Call_unwind_def Let_def deferred_def log_Info_def)
    next
      case (Some fs)
      from trace_Call_loop_unwind [of ctx data fs ?s1] obtain mid where
        mid: "trace (snd (Call_loop_unwind ctx data fs ?s1)) = trace ?s1 @ mid" ..
      obtain p s2 where l: "Call_loop_unwind ctx data fs ?s1 = (p, s2)"
        by (cases "Call_loop_unwind ctx data fs ?s1")
      with mid have "trace s2 = trace ?s1 @ mid" by simp
      with s1 have "trace s2 = trace s @ [Log INFO ctx ''delegate call''
          [Str ''status'', Str ''started'', Str ''domain'', Str (Domain data),
           Str ''action'', Str (Action data), Str ''params'', Bytes (RawParams data)]] @ mid"
        by simp
      with l Some \<open>funcs s (Domain data) = Some dMap\<close> f1 show ?thesis
        by (cases p) (simp_all add: Call_unwind_def Let_def deferred_def log_Info_def)
    qed
  qed
qed

lemma Call_loop_unwind_returning:
  "Call_loop_unwind ctx data (map returning fs) (unwinding s) =
     (None, unwinding (Call_loop ctx data fs s))"
proof (induction fs arbitrary: s)
  case Nil
  show ?case by simp
next
  case (Cons fn fns)
  obtain err w where f: "fn ctx data (world s) = (err, w)"
    by (cases "fn ctx data (world s)")
  let ?s2 = "s\<lparr>trace := trace s @ [Log INFO ctx ''delegate call'' [Str ''status'', Str ''sending''],
      Invoke fn ctx data], world := w\<rparr>"
  show ?case
  proof (cases err)
    case None
    have "Call_loop_unwind ctx data (map returning (fn # fns)) (unwinding s) =
        Call_loop_unwind ctx data (map returning fns) (unwinding ?s2)"
      using f None by (simp add: returning_def unwinding_def log_Info_def)
    moreover have "Call_loop ctx data (fn # fns) s = Call_loop ctx data fns ?s2"
      using f None by (simp add: log_Info_def)
    ultimately show ?thesis by (simp only: Cons.IH)
  next
    case (Some e)
    let ?s3 = "?s2\<lparr>trace := trace ?s2 @ [Log ERROR ctx ''delegate call'' [Str ''msg'', Err e]]\<rparr>"
    have "Call_loop_unwind ctx data (map returning (fn # fns)) (unwinding s) =
        Call_loop_unwind ctx data (map returning fns) (unwinding ?s3)"
      using f Some by (simp add: returning_def unwinding_def log_Info_def log_Error_def)
    moreover have "Call_loop ctx data (fn # fns) s = Call_loop ctx data fns ?s3"
      using f Some by (simp add: log_Info_def log_Error_def)
    ultimately show ?thesis by (simp only: Cons.IH)
  qed
qed

lemma Call_unwind_returning:
  "Call_unwind ctx data (unwinding s) =
     (Returns (fst (Call ctx data s)), unwinding (snd (Call ctx data s)))"
proof -
  let ?s1 = "log_Info ctx ''delegate call''
                 [Str ''status'', Str ''started'', Str ''domain'', Str (Domain data),
                  Str ''action'', Str (Action data), Str ''params'', Bytes (RawParams data)] s"
  have u: "log_Info ctx ''delegate call''
                 [Str ''status'', Str ''started'', Str ''domain'', Str (Domain data),
                  Str ''action'', Str (Action data), Str ''params'', Bytes (RawParams data)]
             (unwinding s) = unwinding ?s1"
    by (simp add: unwinding_def log_Info_def)
  have c: "\<And>t. log_Info ctx ''delegate call'' [Str ''status'', Str ''completed''] (unwinding t) =
      unwinding (log_Info ctx ''delegate call'' [Str ''status'', Str ''completed''] t)"
    by (simp add: unwinding_def log_Info_def)
  have f: "funcs (unwinding ?s1) (Domain data) =
      map_option (\<lambda>m ac. map_option (map returning) (m ac)) (funcs ?s1 (Domain data))"
    by (simp add: unwinding_def)
  show ?thesis
    unfolding Call_unwind_def Call_def Let_def deferred_def u
    by (simp add: f c Call_loop_unwind_returning split: option.split)
qed

lemma Call_unwind_panicking_state:
  "Call_unwind True user_created panicking_state =
     (Panics ''fault'',
      panicking_state\<lparr>trace :=
         [Log INFO True ''delegate call''
            [Str ''status'', Str ''started'', Str ''domain'', Str ''user'',
             Str ''action'', Str ''created'', Str ''params'', Bytes []],
          Log INFO True ''delegate call'' [Str ''status'', Str ''sending''],
          Invoke panicking_P True user_created,
          Log INFO True ''delegate call'' [Str ''status'', Str ''completed'']],
        world := [3]\<rparr>)"
  by (simp add: Call_unwind_def Let_def deferred_def log_Info_def panicking_state_def
        user_created_def panicking_P_def)

subsection \<open>Decoding and encoding a rune\<close>

lemma split_offset:
  fixes x :: nat
  assumes "k \<le> x" "x < k + m"
  obtains a where "x = k + a" "a < m"
proof -
  from assms have "x = k + (x - k)" "x - k < m" by linarith+
  then show ?thesis by (rule that)
qed

lemma digit_mod:
  fixes x c :: nat
  shows "c < 64 \<Longrightarrow> (x * 64 + c) mod 64 = c"
  by simp

lemma enc2:
  fixes b0 b1 :: nat
  assumes "0xC2 \<le> b0" "b0 \<le> 0xDF" "0x80 \<le> b1" "b1 \<le> 0xBF"
    and r: "r = (b0 mod 32) * 64 + b1 mod 64"
  shows "0x7F < r" "r \<le> 0x7FF" "(0xC0 + r div 64) mod 256 = b0" "(0x80 + r mod 64) mod 256 = b1"
proof -
  from assms(1,2) obtain a where a: "b0 = 192 + a" "a < 32"
    by (rule_tac k = 192 and m = 32 and x = b0 in split_offset) simp_all
  from assms(3,4) obtain b where b: "b1 = 128 + b" "b < 64"
    by (rule_tac k = 128 and m = 64 and x = b1 in split_offset) simp_all
  from a assms(1) have a2: "2 \<le> a" by simp
  have "b0 mod 32 = a"
    using mod_mult_self4 [of 32 6 a] a by simp
  moreover have "b1 mod 64 = b"
    using mod_mult_self4 [of 64 2 b] b by simp
  ultimately have r': "r = a * 64 + b" by (simp add: r)
  from b(2) have d: "r div 64 = a" "r mod 64 = b" by (simp_all add: r')
  from a2 a(2) b(2) show "0x7F < r" "r \<le> 0x7FF" by (simp_all add: r')
  from a show "(0xC0 + r div 64) mod 256 = b0" by (simp add: d)
  from b show "(0x80 + r mod 64) mod 256 = b1" by (simp add: d)
qed

lemma enc3:
  fixes b0 b1 b2 :: nat
  assumes "0xE0 \<le> b0" "b0 \<le> 0xEF" "0x80 \<le> b1" "b1 \<le> 0xBF" "0x80 \<le> b2" "b2 \<le> 0xBF"
    and e0: "b0 = 0xE0 \<longrightarrow> 0xA0 \<le> b1" and ed: "b0 = 0xED \<longrightarrow> b1 \<le> 0x9F"
    and r: "r = (b0 mod 16) * 4096 + (b1 mod 64) * 64 + b2 mod 64"
  shows "0x7FF < r" "r \<le> 0xFFFF" "\<not> (0xD800 \<le> r \<and> r \<le> 0xDFFF)"
    "(0xE0 + r div 4096) mod 256 = b0" "(0x80 + (r div 64) mod 64) mod 256 = b1"
    "(0x80 + r mod 64) mod 256 = b2"
proof -
  from assms(1,2) obtain a where a: "b0 = 224 + a" "a < 16"
    by (rule_tac k = 224 and m = 16 and x = b0 in split_offset) simp_all
  from assms(3,4) obtain b where b: "b1 = 128 + b" "b < 64"
    by (rule_tac k = 128 and m = 64 and x = b1 in split_offset) simp_all
  from assms(5,6) obtain c where c: "b2 = 128 + c" "c < 64"
    by (rule_tac k = 128 and m = 64 and x = b2 in split_offset) simp_all
  have "b0 mod 16 = a"
    using mod_mult_self4 [of 16 14 a] a by simp
  moreover have "b1 mod 64 = b"
    using mod_mult_self4 [of 64 2 b] b by simp
  moreover have "b2 mod 64 = c"
    using mod_mult_self4 [of 64 2 c] c by simp
  ultimately have r': "r = a * 4096 + b * 64 + c" by (simp add: r)
  have r64: "r = (a * 64 + b) * 64 + c" by (simp add: r')
  have bc: "b * 64 + c < 4096" using b(2) c(2) by simp
  have r4096: "r = a * 4096 + (b * 64 + c)" by (simp add: r')
  have d1: "r div 4096 = a" using bc by (simp add: r4096)
  have d2: "r div 64 = a * 64 + b" using c(2) by (simp add: r64)
  have d3: "(r div 64) mod 64 = b" using b(2) by (simp add: d2)
  have d4: "r mod 64 = c" by (subst r64) (rule digit_mod [OF c(2)])
  from e0 a b have lo: "a = 0 \<longrightarrow> 32 \<le> b" by simp
  from ed a b have hi: "a = 13 \<longrightarrow> b < 32" by auto
  show "0x7FF < r"
  proof (cases "a = 0")
    case True
    with lo have "32 \<le> b" by simp
    then show ?thesis by (simp add: r')
  next
    case False
    then have "1 \<le> a" by simp
    then show ?thesis by (simp add: r')
  qed
  from a(2) b(2) c(2) show "r \<le> 0xFFFF" by (simp add: r')
  show "\<not> (0xD800 \<le> r \<and> r \<le> 0xDFFF)"
  proof -
    consider "a \<le> 12" | "a = 13" | "14 \<le> a" by linarith
    then show ?thesis
    proof cases
      case 1
      with b(2) c(2) have "r < 0xD800" by (simp add: r')
      then show ?thesis by simp
    next
      case 2
      with hi have "b < 32" by simp
      with 2 c(2) have "r < 0xD800" by (simp add: r')
      then show ?thesis by simp
    next
      case 3
      then have "0xDFFF < r" by (simp add: r')
      then show ?thesis by simp
    qed
  qed
  from a show "(0xE0 + r div 4096) mod 256 = b0" by (simp add: d1)
  from b show "(0x80 + (r div 64) mod 64) mod 256 = b1" by (simp add: d3)
  from c show "(0x80 + r mod 64) mod 256 = b2" by (simp add: d4)
qed

lemma enc4:
  fixes b0 b1 b2 b3 :: nat
  assumes "0xF0 \<le> b0" "b0 \<le> 0xF4" "0x80 \<le> b1" "b1 \<le> 0xBF" "0x80 \<le> b2" "b2 \<le> 0xBF"
    "0x80 \<le> b3" "b3 \<le> 0xBF"
    and f0: "b0 = 0xF0 \<longrightarrow> 0x90 \<le> b1" and f4: "b0 = 0xF4 \<longrightarrow> b1 \<le> 0x8F"
    and r: "r = (b0 mod 8) * 262144 + (b1 mod 64) * 4096 + (b2 mod 64) * 64 + b3 mod 64"
  shows "0xFFFF < r" "r \<le> 0x10FFFF"
    "(0xF0 + r div 262144) mod 256 = b0" "(0x80 + (r div 4096) mod 64) mod 256 = b1"
    "(0x80 + (r div 64) mod 64) mod 256 = b2" "(0x80 + r mod 64) mod 256 = b3"
proof -
  from assms(1,2) obtain a where a: "b0 = 240 + a" "a < 5"
    by (rule_tac k = 240 and m = 5 and x = b0 in split_offset) simp_all
  from assms(3,4) obtain b where b: "b1 = 128 + b" "b < 64"
    by (rule_tac k = 128 and m = 64 and x = b1 in split_offset) simp_all
  from assms(5,6) obtain c where c: "b2 = 128 + c" "c < 64"
    by (rule_tac k = 128 and m = 64 and x = b2 in split_offset) simp_all
  from assms(7,8) obtain d where d: "b3 = 128 + d" "d < 64"
    by (rule_tac k = 128 and m = 64 and x = b3 in split_offset) simp_all
  have "b0 mod 8 = a"
    using mod_mult_self4 [of 8 30 a] a by simp
  moreover have "b1 mod 64 = b"
    using mod_mult_self4 [of 64 2 b] b by simp
  moreover have "b2 mod 64 = c"
    using mod_mult_self4 [of 64 2 c] c by simp
  moreover have "b3 mod 64 = d"
    using mod_mult_self4 [of 64 2 d] d by simp
  ultimately have r': "r = a * 262144 + b * 4096 + c * 64 + d" by (simp add: r)
  have r64: "r = ((a * 64 + b) * 64 + c) * 64 + d" by (simp add: r')
  have r4096: "r = (a * 64 + b) * 4096 + (c * 64 + d)" by (simp add: r')
  have rtop: "r = a * 262144 + (b * 4096 + c * 64 + d)" by (simp add: r')
  have cd: "c * 64 + d < 4096" using c(2) d(2) by simp
  have bcd: "b * 4096 + c * 64 + d < 262144" using b(2) c(2) d(2) by simp
  have d1: "r div 262144 = a" using bcd by (simp add: rtop)
  have d2: "r div 4096 = a * 64 + b" using cd by (simp add: r4096)
  have d3: "(r div 4096) mod 64 = b" using b(2) by (simp add: d2)
  have d4: "r div 64 = (a * 64 + b) * 64 + c" using d(2) by (simp add: r64)
  have d5: "(r div 64) mod 64 = c" by (subst d4) (rule digit_mod [OF c(2)])
  have d6: "r mod 64 = d" by (subst r64) (rule digit_mod [OF d(2)])
  from f0 a b have lo: "a = 0 \<longrightarrow> 16 \<le> b" by simp
  from f4 a b have hi: "a = 4 \<longrightarrow> b < 16" by auto
  show "0xFFFF < r"
  proof (cases "a = 0")
    case True
    with lo have "16 \<le> b" by simp
    then show ?thesis by (simp add: r')
  next
    case False
    then have "1 \<le> a" by simp
    then show ?thesis by (simp add: r')
  qed
  show "r \<le> 0x10FFFF"
  proof (cases "a = 4")
    case True
    with hi have "b < 16" by simp
    with True c(2) d(2) show ?thesis by (simp add: r')
  next
    case False
    with a(2) have "a \<le> 3" by simp
    with b(2) c(2) d(2) show ?thesis by (simp add: r')
  qed
  from a show "(0xF0 + r div 262144) mod 256 = b0" by (simp add: d1)
  from b show "(0x80 + (r div 4096) mod 64) mod 256 = b1" by (simp add: d3)
  from c show "(0x80 + (r div 64) mod 64) mod 256 = b2" by (simp add: d5)
  from d show "(0x80 + r mod 64) mod 256 = b3" by (simp add: d6)
qed

lemma char_of_eqI:
  fixes n :: nat
  assumes "n mod 256 = of_char c"
  shows "char_of n = c"
  using assms char_of_eq_iff [of n c] by (simp add: take_bit_eq_mod)

lemma first_Some:
  assumes "first b0 = Some (sz, lo, hi)"
  shows "(sz = 2 \<and> 0xC2 \<le> b0 \<and> b0 \<le> 0xDF \<and> lo = 0x80 \<and> hi = 0xBF) \<or>
         (sz = 3 \<and> 0xE0 \<le> b0 \<and> b0 \<le> 0xEF \<and> 0x80 \<le> lo \<and> hi \<le> 0xBF
            \<and> (b0 = 0xE0 \<longrightarrow> lo = 0xA0) \<and> (b0 = 0xED \<longrightarrow> hi = 0x9F)) \<or>
         (sz = 4 \<and> 0xF0 \<le> b0 \<and> b0 \<le> 0xF4 \<and> 0x80 \<le> lo \<and> hi \<le> 0xBF
            \<and> (b0 = 0xF0 \<longrightarrow> lo = 0x90) \<and> (b0 = 0xF4 \<longrightarrow> hi = 0x8F))"
  using assms by (auto simp: first_def split: if_splits)

lemma take2: "2 \<le> length s \<Longrightarrow> take 2 s = [s ! 0, s ! 1]"
  by (cases s; cases "tl s") auto

lemma take3: "3 \<le> length s \<Longrightarrow> take 3 s = [s ! 0, s ! 1, s ! 2]"
  by (cases s; cases "tl s"; cases "tl (tl s)") auto

lemma take4: "4 \<le> length s \<Longrightarrow> take 4 s = [s ! 0, s ! 1, s ! 2, s ! 3]"
  by (cases s; cases "tl s"; cases "tl (tl s)"; cases "tl (tl (tl s))") auto

lemma AppendRune_Decode:
  assumes "0 < length s" and h: "(of_char (s ! 0) :: nat) \<ge> 0x80"
    and d: "DecodeRuneInString s = (r, w)" and ok: "\<not> (w = 1 \<and> r = RuneError)"
  shows "AppendRune r = take w s"
proof -
  let ?b0 = "of_char (s ! 0) :: nat"
  let ?b1 = "of_char (s ! 1) :: nat"
  let ?b2 = "of_char (s ! 2) :: nat"
  let ?b3 = "of_char (s ! 3) :: nat"
  from assms(1) h have d0: "DecodeRuneInString s =
      (case first ?b0 of
            None \<Rightarrow> (RuneError, 1)
          | Some (sz, lo, hi) \<Rightarrow>
              if length s < sz then (RuneError, 1)
              else if ?b1 < lo \<or> hi < ?b1 then (RuneError, 1)
                else if sz \<le> 2 then ((?b0 mod 32) * 64 + ?b1 mod 64, 2)
                else if ?b2 < 0x80 \<or> 0xBF < ?b2 then (RuneError, 1)
                  else if sz \<le> 3
                    then ((?b0 mod 16) * 4096 + (?b1 mod 64) * 64 + ?b2 mod 64, 3)
                  else if ?b3 < 0x80 \<or> 0xBF < ?b3 then (RuneError, 1)
                    else ((?b0 mod 8) * 262144 + (?b1 mod 64) * 4096
                            + (?b2 mod 64) * 64 + ?b3 mod 64, 4))"
  proof -
    from assms(1) have n1: "\<not> length s < 1" by simp
    from h have n2: "\<not> ?b0 < RuneSelf" by (simp add: RuneSelf_def)
    show ?thesis
      by (simp only: DecodeRuneInString_def Let_def n1 n2 if_False)
  qed
  show ?thesis
  proof (cases "first ?b0")
    case None
    with d0 d ok show ?thesis by simp
  next
    case (Some t)
    obtain sz lo hi where t: "t = (sz, lo, hi)" by (cases t)
    with Some have f: "first ?b0 = Some (sz, lo, hi)" by simp
    from d0 d ok f have len: "sz \<le> length s" and b1: "lo \<le> ?b1" "?b1 \<le> hi"
      by (auto split: if_splits)
    from first_Some [OF f] consider
        (two) "sz = 2" "0xC2 \<le> ?b0" "?b0 \<le> 0xDF" "lo = 0x80" "hi = 0xBF"
      | (three) "sz = 3" "0xE0 \<le> ?b0" "?b0 \<le> 0xEF" "0x80 \<le> lo" "hi \<le> 0xBF"
          "?b0 = 0xE0 \<longrightarrow> lo = 0xA0" "?b0 = 0xED \<longrightarrow> hi = 0x9F"
      | (four) "sz = 4" "0xF0 \<le> ?b0" "?b0 \<le> 0xF4" "0x80 \<le> lo" "hi \<le> 0xBF"
          "?b0 = 0xF0 \<longrightarrow> lo = 0x90" "?b0 = 0xF4 \<longrightarrow> hi = 0x8F"
      by blast
    then show ?thesis
    proof cases
      case two
      from d0 d f two b1 len ok have rw: "r = (?b0 mod 32) * 64 + ?b1 mod 64" "w = 2"
        by (auto split: if_splits)
      from b1 two have b1': "0x80 \<le> ?b1" "?b1 \<le> 0xBF" by simp_all
      note e = enc2 [OF two(2,3) b1' rw(1)]
      from e(1,2) have "AppendRune r = [char_of (0xC0 + r div 64), char_of (0x80 + r mod 64)]"
        by (simp add: AppendRune_def)
      also have "\<dots> = [s ! 0, s ! 1]"
        by (simp only: char_of_eqI [OF e(3)] char_of_eqI [OF e(4)])
      also from len two have "\<dots> = take w s"
        by (simp add: rw(2) take2)
      finally show ?thesis .
    next
      case three
      from d0 d f three b1 len ok have b2: "0x80 \<le> ?b2" "?b2 \<le> 0xBF"
        and rw: "r = (?b0 mod 16) * 4096 + (?b1 mod 64) * 64 + ?b2 mod 64" "w = 3"
        by (auto split: if_splits)
      from b1 three have b1': "0x80 \<le> ?b1" "?b1 \<le> 0xBF"
        and e0: "?b0 = 0xE0 \<longrightarrow> 0xA0 \<le> ?b1" and ed: "?b0 = 0xED \<longrightarrow> ?b1 \<le> 0x9F"
        by auto
      note e = enc3 [OF three(2,3) b1' b2 e0 ed rw(1)]
      from e(1,2) have c1: "\<not> r \<le> 0x7F" and c2: "\<not> r \<le> 0x7FF"
        and c3: "\<not> r > MaxRune"
        by (simp_all add: MaxRune_def)
      from c3 e(3) have c4: "\<not> (r > MaxRune \<or> (0xD800 \<le> r \<and> r \<le> 0xDFFF))"
        by blast
      have "AppendRune r =
          [char_of (0xE0 + r div 4096), char_of (0x80 + (r div 64) mod 64),
           char_of (0x80 + r mod 64)]"
        by (simp only: AppendRune_def c1 c2 c4 e(2) if_False if_True)
      also have "\<dots> = [s ! 0, s ! 1, s ! 2]"
        by (simp only: char_of_eqI [OF e(4)] char_of_eqI [OF e(5)] char_of_eqI [OF e(6)])
      also from len three have "\<dots> = take w s"
        by (simp add: rw(2) take3)
      finally show ?thesis .
    next
      case four
      from d0 d f four b1 len ok have b2: "0x80 \<le> ?b2" "?b2 \<le> 0xBF"
        and b3: "0x80 \<le> ?b3" "?b3 \<le> 0xBF"
        and rw: "r = (?b0 mod 8) * 262144 + (?b1 mod 64) * 4096 + (?b2 mod 64) * 64 + ?b3 mod 64"
          "w = 4"
        by (auto split: if_splits)
      from b1 four have b1': "0x80 \<le> ?b1" "?b1 \<le> 0xBF"
        and f0: "?b0 = 0xF0 \<longrightarrow> 0x90 \<le> ?b1" and f4: "?b0 = 0xF4 \<longrightarrow> ?b1 \<le> 0x8F"
        by auto
      note e = enc4 [OF four(2,3) b1' b2 b3 f0 f4 rw(1)]
      from e(1,2) have "AppendRune r =
          [char_of (0xF0 + r div 262144), char_of (0x80 + (r div 4096) mod 64),
           char_of (0x80 + (r div 64) mod 64), char_of (0x80 + r mod 64)]"
        by (simp add: AppendRune_def MaxRune_def)
      also have "\<dots> = [s ! 0, s ! 1, s ! 2, s ! 3]"
        by (simp only: char_of_eqI [OF e(3)] char_of_eqI [OF e(4)] char_of_eqI [OF e(5)]
              char_of_eqI [OF e(6)])
      also from len four have "\<dots> = take w s"
        by (simp add: rw(2) take4)
      finally show ?thesis .
    qed
  qed
qed

lemma AppendRune_next_rune:
  assumes "0 < length s"
    and ok: "\<not> (snd (next_rune s) = 1 \<and> fst (next_rune s) = RuneError)"
  shows "AppendRune (fst (next_rune s)) = take (snd (next_rune s)) s"
proof (cases "(of_char (s ! 0) :: nat) \<ge> 0x80")
  case True
  then have n: "next_rune s = DecodeRuneInString s"
    by (simp add: next_rune_def RuneSelf_def)
  obtain r w where d: "DecodeRuneInString s = (r, w)"
    by (cases "DecodeRuneInString s")
  with ok n have "\<not> (w = 1 \<and> r = RuneError)" by simp
  from AppendRune_Decode [OF assms(1) True d this] show ?thesis
    by (simp add: n d)
next
  case False
  then have n: "next_rune s = (of_char (s ! 0), 1)"
    by (simp add: next_rune_def RuneSelf_def)
  from assms(1) have "take 1 s = [s ! 0]"
    by (cases s) simp_all
  with False show ?thesis
    by (simp add: n AppendRune_def)
qed

subsection \<open>Quoting\<close>

lemma quote_loop_Nil: "quote_loop tbl [] = []"
  by (simp add: quote_loop.simps [of tbl "[]"])

lemma quote_loop_ascii:
  assumes "(of_char c :: nat) < 0x80"
  shows "quote_loop tbl (c # cs) = appendEscapedRune tbl (of_char c) @ quote_loop tbl cs"
proof -
  have "next_rune (c # cs) = (of_char c, 1)"
    using assms by (simp add: next_rune_def RuneSelf_def)
  moreover have "(of_char c :: nat) \<noteq> RuneError"
    using assms by (simp add: RuneError_def)
  ultimately show ?thesis
    by (simp add: quote_loop.simps [of tbl "c # cs"])
qed




lemma quote_loop_unescaped: "unescaped tbl s \<Longrightarrow> quote_loop tbl s = s"
proof (induction tbl s rule: quote_loop.induct)
  case (1 tbl s)
  show ?case
  proof (cases "0 < length s")
    case False
    then have "s = []" by simp
    then show ?thesis by (simp add: quote_loop.simps [of tbl "[]"])
  next
    case True
    let ?r = "fst (next_rune s)" and ?w = "snd (next_rune s)"
    from "1.prems" True have c: "copied tbl s" and u: "unescaped tbl (drop ?w s)"
      by (simp_all add: unescaped.simps [of tbl s] split: if_splits)
    from c have ok: "\<not> (?w = 1 \<and> ?r = RuneError)" and q: "?r \<noteq> 0x22" "?r \<noteq> 0x5C"
      and p: "IsPrint tbl ?r"
      by (simp_all add: copied_def)
    from q p have "appendEscapedRune tbl ?r = AppendRune ?r"
      by (simp add: appendEscapedRune_def)
    also have "\<dots> = take ?w s"
      by (rule AppendRune_next_rune [OF True ok])
    finally have a: "appendEscapedRune tbl ?r = take ?w s" .
    from "1.IH" [OF True u] have ih: "quote_loop tbl (drop ?w s) = drop ?w s" .
    have "quote_loop tbl s = appendEscapedRune tbl ?r @ quote_loop tbl (drop ?w s)"
      by (subst quote_loop.simps) (simp only: True ok if_True if_False)
    also have "\<dots> = take ?w s @ drop ?w s"
      by (simp only: a ih)
    finally show ?thesis
      by (simp only: append_take_drop_id)
  qed
qed

lemma unescaped_Nil: "unescaped tbl []"
  by (simp add: unescaped.simps [of tbl "[]"])

lemma unescaped_ascii:
  assumes "(of_char c :: nat) < 0x80"
  shows "unescaped tbl (c # cs) \<longleftrightarrow>
     0x20 \<le> (of_char c :: nat) \<and> (of_char c :: nat) \<le> 0x7E \<and>
     (of_char c :: nat) \<noteq> 0x22 \<and> (of_char c :: nat) \<noteq> 0x5C \<and> unescaped tbl cs"
proof -
  have "next_rune (c # cs) = (of_char c, 1)"
    using assms by (simp add: next_rune_def RuneSelf_def)
  moreover have "(of_char c :: nat) \<noteq> RuneError"
    using assms by (simp add: RuneError_def)
  ultimately show ?thesis
    using assms
    by (auto simp: unescaped.simps [of tbl "c # cs"] copied_def IsPrint_def RuneSelf_def)
qed

lemma Quote_unescaped: "unescaped tbl s \<Longrightarrow> Quote tbl s = [CHR 0x22] @ s @ [CHR 0x22]"
  by (simp add: Quote_def quote_loop_unescaped)

lemma sublist_Quote_unescaped: "unescaped tbl s \<Longrightarrow> sublist s (ps @ Quote tbl s @ ss)"
proof -
  assume "unescaped tbl s"
  then have "ps @ Quote tbl s @ ss = (ps @ [CHR 0x22]) @ s @ ([CHR 0x22] @ ss)"
    by (simp add: Quote_unescaped)
  then show ?thesis
    by (simp only: sublist_appendI)
qed

lemma unescaped_e_acute: "unescaped (\<lambda>r. r = 0xE9) [CHR 0xC3, CHR 0xA9]"
  by (simp add: unescaped.simps [of _ "[CHR 0xC3, CHR 0xA9]"] unescaped_Nil copied_def
        next_rune_def DecodeRuneInString_def first_def IsPrint_def RuneSelf_def RuneError_def
        Let_def)

lemma String_split:
  "String tbl d = ''Event{Domain:'' @ Quote tbl (Domain d) @ ('', Action:'' @ Quote tbl (Action d)
     @ '', RawParams:'' @ Quote tbl (string_of_bytes (RawParams d)) @ ''}'')"
  "String tbl d = (''Event{Domain:'' @ Quote tbl (Domain d) @ '', Action:'') @ Quote tbl (Action d)
     @ ('', RawParams:'' @ Quote tbl (string_of_bytes (RawParams d)) @ ''}'')"
  "String tbl d = (''Event{Domain:'' @ Quote tbl (Domain d) @ '', Action:'' @ Quote tbl (Action d)
     @ '', RawParams:'') @ Quote tbl (string_of_bytes (RawParams d)) @ ''}''"
  by (simp_all add: String_def)

lemma String_escaped_event:
  "String (\<lambda>r. True) escaped_event =
     ''Event{Domain:'' @ [CHR 0x22, CHR ''a'', CHR 0x5C, CHR 0x22, CHR ''b'', CHR 0x22]
     @ '', Action:'' @ [CHR 0x22, CHR ''y'', CHR 0x22]
     @ '', RawParams:'' @ [CHR 0x22, CHR 0x5C, CHR ''x'', CHR ''0'', CHR ''1'',
          CHR 0x5C, CHR ''x'', CHR ''0'', CHR ''2'', CHR 0x5C, CHR ''x'', CHR ''0'', CHR ''3'',
          CHR 0x22] @ ''}''"
  by (simp add: String_def Quote_def quote_loop_ascii quote_loop_Nil string_of_bytes_def
      appendEscapedRune_def IsPrint_def AppendRune_def RuneSelf_def hexdigits_def lowerhex_def
      char_of_eq_iff escaped_event_def)

subsection \<open>Dispatch and registration\<close>

text \<open>
  C1. For every registry state, every cancellation token and every event, whatever the
  registered functions return, \<open>Call\<close> returns the nil error: no error of a registered
  function reaches the caller.
\<close>

theorem Call_returns_nil: "fst (Call ctx data s) = None"
  by (simp add: Call_def Let_def)

text \<open>
  C2. Start from a new delegate and make any sequence of \<open>Register\<close> calls. One \<open>Call\<close>
  with an event then invokes exactly the functions registered under the event's domain
  and action, each once with the token and the event, in the order of their
  registration: nothing reordered, merged or skipped. The program state afterwards is
  the one reached by running these functions one after the other.
\<close>

theorem Call_invokes_in_registration_order:
  "filter is_Invoke (trace (snd (Call ctx data (Register_all regs (New w))))) =
     map (\<lambda>fn. Invoke fn ctx data) (registered_under (Domain data) (Action data) regs) \<and>
   world (snd (Call ctx data (Register_all regs (New w)))) =
     foldl (\<lambda>w fn. snd (fn ctx data w)) w (registered_under (Domain data) (Action data) regs)"
  by (simp add: filter_trace_Call world_Call handlers_at_Register_all handlers_at_New
        trace_Register_all world_Register_all trace_New world_New run_handlers_def)

text \<open>
  C3. When the event's domain is not a key of the map, or its action is not a key under
  that domain, \<open>Call\<close> returns the nil error, invokes no function and leaves the map
  and the program state as they were: all it does is the two logger calls, start and
  completion.
\<close>

theorem Call_without_registrations:
  assumes "funcs s (Domain data) = None
           \<or> (\<exists>dMap. funcs s (Domain data) = Some dMap \<and> dMap (Action data) = None)"
  shows "Call ctx data s =
     (None, s\<lparr>trace := trace s @
        [Log INFO ctx ''delegate call''
           [Str ''status'', Str ''started'', Str ''domain'', Str (Domain data),
            Str ''action'', Str (Action data), Str ''params'', Bytes (RawParams data)],
         Log INFO ctx ''delegate call'' [Str ''status'', Str ''completed'']]\<rparr>)"
  using assms by (auto simp: Call_def Let_def log_Info_def)

theorem Call_without_registrations_witness:
  "(funcs (Register ''user'' ''created'' (\<lambda>ctx data w. (None, Suc w)) (New (0::nat)))
        (Domain \<lparr>Domain = ''user'', Action = ''deleted'', RawParams = []\<rparr>) = None
    \<or> (\<exists>dMap. funcs (Register ''user'' ''created'' (\<lambda>ctx data w. (None, Suc w)) (New (0::nat)))
                 (Domain \<lparr>Domain = ''user'', Action = ''deleted'', RawParams = []\<rparr>) = Some dMap
               \<and> dMap (Action \<lparr>Domain = ''user'', Action = ''deleted'', RawParams = []\<rparr>) = None))
   \<and> fst (Call True \<lparr>Domain = ''user'', Action = ''deleted'', RawParams = []\<rparr>
       (Register ''user'' ''created'' (\<lambda>ctx data w. (None, Suc w)) (New (0::nat)))) = None
   \<and> world (snd (Call True \<lparr>Domain = ''user'', Action = ''deleted'', RawParams = []\<rparr>
       (Register ''user'' ''created'' (\<lambda>ctx data w. (None, Suc w)) (New (0::nat))))) = 0
   \<and> trace (snd (Call True \<lparr>Domain = ''user'', Action = ''deleted'', RawParams = []\<rparr>
       (Register ''user'' ''created'' (\<lambda>ctx data w. (None, Suc w)) (New (0::nat))))) =
       [Log INFO True ''delegate call''
           [Str ''status'', Str ''started'', Str ''domain'', Str ''user'',
            Str ''action'', Str ''deleted'', Str ''params'', Bytes []],
        Log INFO True ''delegate call'' [Str ''status'', Str ''completed'']]"
proof -
  have h: "funcs (Register ''user'' ''created'' (\<lambda>ctx data w. (None, Suc w)) (New (0::nat)))
        (Domain \<lparr>Domain = ''user'', Action = ''deleted'', RawParams = []\<rparr>) = None
    \<or> (\<exists>dMap. funcs (Register ''user'' ''created'' (\<lambda>ctx data w. (None, Suc w)) (New (0::nat)))
                 (Domain \<lparr>Domain = ''user'', Action = ''deleted'', RawParams = []\<rparr>) = Some dMap
               \<and> dMap (Action \<lparr>Domain = ''user'', Action = ''deleted'', RawParams = []\<rparr>) = None)"
    by (simp add: Register_def New_def)
  show ?thesis
    using h Call_without_registrations [OF h, of True]
    by (simp add: Register_def New_def)
qed

text \<open>
  C4. Let the functions under the event's key be \<open>pre\<close>, then \<open>fn\<close>, then \<open>post\<close>, and
  let \<open>fn\<close> return the error \<open>e\<close> when its turn comes. Then \<open>Call\<close> invokes \<open>fn\<close>,
  passes \<open>e\<close> to the logger at error level right after, and goes on to invoke every
  function of \<open>post\<close>, in order; the program state at the end is the one after all of
  \<open>pre\<close>, \<open>fn\<close> and \<open>post\<close> have run.
\<close>

theorem Call_continues_after_error:
  assumes "handlers_at s (Domain data) (Action data) = pre @ fn # post"
    and "fst (fn ctx data (foldl (\<lambda>w g. snd (g ctx data w)) (world s) pre)) = Some e"
  shows "\<exists>t1 t2.
     trace (snd (Call ctx data s)) =
       t1 @ [Invoke fn ctx data, Log ERROR ctx ''delegate call'' [Str ''msg'', Err e]] @ t2 \<and>
     filter is_Invoke t2 = map (\<lambda>g. Invoke g ctx data) post \<and>
     world (snd (Call ctx data s)) =
       foldl (\<lambda>w g. snd (g ctx data w)) (world s) (pre @ fn # post)"
proof -
  let ?w = "run_handlers ctx data pre (world s)"
  let ?t1 = "trace s @ [started ctx data] @ loop_calls ctx data pre (world s)
             @ [Log INFO ctx ''delegate call'' [Str ''status'', Str ''sending'']]"
  let ?t2 = "loop_calls ctx data post (snd (fn ctx data ?w)) @ [completed ctx]"
  from assms(2) have e: "fst (fn ctx data ?w) = Some e"
    by (simp add: run_handlers_def)
  have "trace (snd (Call ctx data s)) =
      ?t1 @ [Invoke fn ctx data, Log ERROR ctx ''delegate call'' [Str ''msg'', Err e]] @ ?t2"
    by (simp add: Call_eq assms(1) loop_calls_append e)
  moreover have "filter is_Invoke ?t2 = map (\<lambda>g. Invoke g ctx data) post"
    by (simp add: filter_loop_calls is_Invoke_completed)
  moreover have "world (snd (Call ctx data s)) =
       foldl (\<lambda>w g. snd (g ctx data w)) (world s) (pre @ fn # post)"
    by (simp add: world_Call assms(1) run_handlers_def)
  ultimately show ?thesis by blast
qed

theorem Call_continues_after_error_witness:
  "handlers_at (Register ''user'' ''created'' record_A
       (Register ''user'' ''created'' failing_B (New [])))
     (Domain user_created) (Action user_created) = [] @ failing_B # [record_A] \<and>
   fst (failing_B True user_created (foldl (\<lambda>w g. snd (g True user_created w))
       (world (Register ''user'' ''created'' record_A
          (Register ''user'' ''created'' failing_B (New [])))) [])) = Some (Error ''boom'') \<and>
   (\<exists>t1 t2.
     trace (snd (Call True user_created (Register ''user'' ''created'' record_A
       (Register ''user'' ''created'' failing_B (New []))))) =
       t1 @ [Invoke failing_B True user_created,
             Log ERROR True ''delegate call'' [Str ''msg'', Err (Error ''boom'')]] @ t2 \<and>
     filter is_Invoke t2 = [Invoke record_A True user_created]) \<and>
   world (snd (Call True user_created (Register ''user'' ''created'' record_A
       (Register ''user'' ''created'' failing_B (New []))))) = [2, 1]"
proof -
  let ?s = "Register ''user'' ''created'' record_A
       (Register ''user'' ''created'' failing_B (New [])) :: (bool, nat list) state"
  have h1: "handlers_at ?s (Domain user_created) (Action user_created) = [] @ failing_B # [record_A]"
    by (simp add: handlers_at_Register handlers_at_New user_created_def)
  have h2: "fst (failing_B True user_created (foldl (\<lambda>w g. snd (g True user_created w))
       (world ?s) [])) = Some (Error ''boom'')"
    by (simp add: failing_B_def)
  have w: "world ?s = []"
    by (simp add: world_Register world_New)
  note inst = Call_continues_after_error [where s = ?s and data = user_created and pre = "[]"
      and fn = failing_B and post = "[record_A]" and ctx = True and e = "Error ''boom''"]
  from inst [OF h1 h2]
  obtain t1 t2 where
    t: "trace (snd (Call True user_created ?s)) =
         t1 @ [Invoke failing_B True user_created,
               Log ERROR True ''delegate call'' [Str ''msg'', Err (Error ''boom'')]] @ t2"
    and f: "filter is_Invoke t2 = map (\<lambda>g. Invoke g True user_created) [record_A]"
    and wd: "world (snd (Call True user_created ?s)) =
         foldl (\<lambda>w g. snd (g True user_created w)) (world ?s) ([] @ failing_B # [record_A])"
    by (elim exE conjE)
  from f have f': "filter is_Invoke t2 = [Invoke record_A True user_created]"
    by simp
  have ex: "\<exists>t1 t2.
     trace (snd (Call True user_created ?s)) =
       t1 @ [Invoke failing_B True user_created,
             Log ERROR True ''delegate call'' [Str ''msg'', Err (Error ''boom'')]] @ t2 \<and>
     filter is_Invoke t2 = [Invoke record_A True user_created]"
    by (rule exI [of _ t1], rule exI [of _ t2]) (rule conjI [OF t f'])
  have wf: "world (snd (Call True user_created ?s)) = [2, 1]"
    by (simp only: wd w) (simp add: failing_B_def record_A_def)
  show ?thesis
    by (rule conjI [OF h1 conjI [OF h2 conjI [OF ex wf]]])
qed

text \<open>
  C5. \<open>Register\<close> calls under one key add up: after registering the functions \<open>fns\<close>
  under a key, the key holds what it held before followed by \<open>fns\<close>, whether or not
  the domain or the action was in the map. Starting from a new delegate, \<open>N\<close> such
  calls followed by one \<open>Call\<close> for that key invoke exactly the \<open>N\<close> registered
  functions, each once and in order, the program state afterwards is the one reached
  by running them one after the other, and the invocations number \<open>N\<close>.
\<close>

theorem Register_accumulates:
  "handlers_at (foldl (\<lambda>s fn. Register dm ac fn s) s fns) dm ac = handlers_at s dm ac @ fns \<and>
   filter is_Invoke (trace (snd (Call ctx \<lparr>Domain = dm, Action = ac, RawParams = p\<rparr>
       (foldl (\<lambda>s fn. Register dm ac fn s) (New w) fns)))) =
     map (\<lambda>fn. Invoke fn ctx \<lparr>Domain = dm, Action = ac, RawParams = p\<rparr>) fns \<and>
   world (snd (Call ctx \<lparr>Domain = dm, Action = ac, RawParams = p\<rparr>
       (foldl (\<lambda>s fn. Register dm ac fn s) (New w) fns))) =
     foldl (\<lambda>w fn. snd (fn ctx \<lparr>Domain = dm, Action = ac, RawParams = p\<rparr> w)) w fns \<and>
   length (filter is_Invoke (trace (snd (Call ctx \<lparr>Domain = dm, Action = ac, RawParams = p\<rparr>
       (foldl (\<lambda>s fn. Register dm ac fn s) (New w) fns))))) = length fns"
proof -
  have w: "world (foldl (\<lambda>s fn. Register dm ac fn s) s fns) = world s" for s :: "('a, 'b) state"
    by (induction fns arbitrary: s) (simp_all add: world_Register)
  show ?thesis
    by (simp add: handlers_at_foldl_Register filter_trace_Call world_Call trace_foldl_Register
          handlers_at_New trace_New world_New w run_handlers_def)
qed


text \<open>
  C6. Registering a function under a key B other than the event's key A changes nothing
  of what \<open>Call\<close> does for A: the same calls are made, the program state ends the same,
  and the functions invoked are those that A held before, so a function registered
  only under B is not among them.
\<close>

theorem Call_ignores_other_keys:
  assumes "(Domain data, Action data) \<noteq> (dmB, acB)"
  shows "trace (snd (Call ctx data (Register dmB acB fn s))) = trace (snd (Call ctx data s)) \<and>
     world (snd (Call ctx data (Register dmB acB fn s))) = world (snd (Call ctx data s)) \<and>
     filter is_Invoke (trace (snd (Call ctx data (Register dmB acB fn s)))) =
       filter is_Invoke (trace s)
       @ map (\<lambda>g. Invoke g ctx data) (handlers_at s (Domain data) (Action data))"
proof -
  from assms have "handlers_at (Register dmB acB fn s) (Domain data) (Action data) =
      handlers_at s (Domain data) (Action data)"
    by (auto simp: handlers_at_Register)
  then show ?thesis
    by (simp add: Call_eq trace_Register world_Register filter_loop_calls
          is_Invoke_started is_Invoke_completed)
qed

theorem Call_ignores_other_keys_witness:
  "(Domain user_created, Action user_created) \<noteq> (''order'', ''shipped'') \<and>
   trace (snd (Call True user_created
       (Register ''order'' ''shipped'' failing_B (Register ''user'' ''created'' record_A (New []))))) =
     trace (snd (Call True user_created (Register ''user'' ''created'' record_A (New [])))) \<and>
   filter is_Invoke (trace (snd (Call True user_created
       (Register ''order'' ''shipped'' failing_B (Register ''user'' ''created'' record_A (New [])))))) =
     [Invoke record_A True user_created]"
proof -
  let ?s = "Register ''user'' ''created'' record_A (New []) :: (bool, nat list) state"
  have h: "(Domain user_created, Action user_created) \<noteq> (''order'', ''shipped'')"
    by (simp add: user_created_def)
  have a: "handlers_at ?s (Domain user_created) (Action user_created) = [record_A]"
    by (simp add: handlers_at_Register handlers_at_New user_created_def)
  have b: "trace ?s = []"
    by (simp add: trace_Register trace_New)
  note inst = Call_ignores_other_keys [OF h, of True failing_B ?s]
  from inst have c1: "trace (snd (Call True user_created
       (Register ''order'' ''shipped'' failing_B ?s))) = trace (snd (Call True user_created ?s))"
    by (rule conjunct1)
  from inst have "filter is_Invoke (trace (snd (Call True user_created
       (Register ''order'' ''shipped'' failing_B ?s)))) =
     filter is_Invoke (trace ?s)
       @ map (\<lambda>g. Invoke g True user_created)
           (handlers_at ?s (Domain user_created) (Action user_created))"
    by (elim conjE)
  then have c2: "filter is_Invoke (trace (snd (Call True user_created
       (Register ''order'' ''shipped'' failing_B ?s)))) = [Invoke record_A True user_created]"
    by (simp only: a b) simp
  show ?thesis
    by (rule conjI [OF h conjI [OF c1 c2]])
qed

text \<open>
  C7. Every \<open>Call\<close> first passes to the logger the start entry with the event's domain,
  action and payload, and last the completion entry, however the function leaves: domain
  missing, action missing, no function, functions that return nil or an error, and a
  registered function that panics in the middle of the loop. The first statement is
  about \<open>Call_unwind\<close>, where registered functions may panic; the second says the same
  of \<open>Call\<close>, where they return.
\<close>

theorem Call_logs_start_and_completion:
  "(\<exists>mid. trace (snd (Call_unwind ctx data g)) =
     trace g
     @ [Log INFO ctx ''delegate call''
          [Str ''status'', Str ''started'', Str ''domain'', Str (Domain data),
           Str ''action'', Str (Action data), Str ''params'', Bytes (RawParams data)]]
     @ mid
     @ [Log INFO ctx ''delegate call'' [Str ''status'', Str ''completed'']]) \<and>
   (\<exists>mid. trace (snd (Call ctx data s)) =
     trace s
     @ [Log INFO ctx ''delegate call''
          [Str ''status'', Str ''started'', Str ''domain'', Str (Domain data),
           Str ''action'', Str (Action data), Str ''params'', Bytes (RawParams data)]]
     @ mid
     @ [Log INFO ctx ''delegate call'' [Str ''status'', Str ''completed'']])"
proof
  show "\<exists>mid. trace (snd (Call_unwind ctx data g)) =
     trace g
     @ [Log INFO ctx ''delegate call''
          [Str ''status'', Str ''started'', Str ''domain'', Str (Domain data),
           Str ''action'', Str (Action data), Str ''params'', Bytes (RawParams data)]]
     @ mid
     @ [Log INFO ctx ''delegate call'' [Str ''status'', Str ''completed'']]"
    by (rule trace_Call_unwind)
  show "\<exists>mid. trace (snd (Call ctx data s)) =
     trace s
     @ [Log INFO ctx ''delegate call''
          [Str ''status'', Str ''started'', Str ''domain'', Str (Domain data),
           Str ''action'', Str (Action data), Str ''params'', Bytes (RawParams data)]]
     @ mid
     @ [Log INFO ctx ''delegate call'' [Str ''status'', Str ''completed'']]"
    by (simp add: Call_eq started_def completed_def)
qed


theorem Call_logs_start_and_completion_witness:
  "fst (Call_unwind True user_created panicking_state) = Panics ''fault'' \<and>
   (\<exists>mid. trace (snd (Call_unwind True user_created panicking_state)) =
     trace panicking_state
     @ [Log INFO True ''delegate call''
          [Str ''status'', Str ''started'', Str ''domain'', Str (Domain user_created),
           Str ''action'', Str (Action user_created), Str ''params'',
           Bytes (RawParams user_created)]]
     @ mid
     @ [Log INFO True ''delegate call'' [Str ''status'', Str ''completed'']])"
proof
  show "fst (Call_unwind True user_created panicking_state) = Panics ''fault''"
    by (simp add: Call_unwind_panicking_state)
  show "\<exists>mid. trace (snd (Call_unwind True user_created panicking_state)) =
     trace panicking_state
     @ [Log INFO True ''delegate call''
          [Str ''status'', Str ''started'', Str ''domain'', Str (Domain user_created),
           Str ''action'', Str (Action user_created), Str ''params'',
           Bytes (RawParams user_created)]]
     @ mid
     @ [Log INFO True ''delegate call'' [Str ''status'', Str ''completed'']]"
    by (rule Call_logs_start_and_completion [of True user_created panicking_state, THEN conjunct1])
qed

text \<open>
  C9. The token does not steer \<open>Call\<close>: with the same registry state and event, two
  tokens give the same result and the same sequence of invoked functions, which is
  always the whole list under the event's key. The token is only handed to each
  function.
\<close>

theorem Call_ignores_token:
  "fst (Call ctx1 data s) = fst (Call ctx2 data s) \<and>
   map handler (filter is_Invoke (trace (snd (Call ctx1 data s)))) =
     map handler (filter is_Invoke (trace (snd (Call ctx2 data s)))) \<and>
   map handler (filter is_Invoke (trace (snd (Call ctx1 data s)))) =
     map handler (filter is_Invoke (trace s)) @ handlers_at s (Domain data) (Action data)"
  by (simp add: Call_eq filter_loop_calls is_Invoke_started is_Invoke_completed comp_def)

text \<open>
  C10. \<open>Register\<close> puts the function at the end of the list under its key and leaves
  the lookup of every other key as it was; it makes no call and does not touch the
  program state. \<open>Call\<close> leaves the map as it was.
\<close>

theorem Register_frame:
  "lookup (Register dm ac fn s) dm ac = Some (handlers_at s dm ac @ [fn]) \<and>
   (\<forall>dm' ac'. (dm', ac') \<noteq> (dm, ac) \<longrightarrow>
       lookup (Register dm ac fn s) dm' ac' = lookup s dm' ac') \<and>
   trace (Register dm ac fn s) = trace s \<and>
   world (Register dm ac fn s) = world s \<and>
   funcs (snd (Call ctx data s)) = funcs s"
  by (auto simp: lookup_Register trace_Register world_Register Call_eq)

theorem Register_frame_witness:
  "(''order'', ''shipped'') \<noteq> (''user'', ''created'') \<and>
   lookup (Register ''user'' ''created'' record_A (Register ''order'' ''shipped'' failing_B (New [])))
       ''order'' ''shipped'' =
     lookup (Register ''order'' ''shipped'' failing_B (New [])) ''order'' ''shipped'' \<and>
   lookup (Register ''order'' ''shipped'' failing_B (New [])) ''order'' ''shipped'' = Some [failing_B]"
proof -
  let ?s = "Register ''order'' ''shipped'' failing_B (New []) :: (bool, nat list) state"
  have h: "(''order'', ''shipped'') \<noteq> (''user'', ''created'')"
    by simp
  from Register_frame [of "''user''" "''created''" record_A ?s True user_created]
  have "\<forall>dm' ac'. (dm', ac') \<noteq> (''user'', ''created'') \<longrightarrow>
      lookup (Register ''user'' ''created'' record_A ?s) dm' ac' = lookup ?s dm' ac'"
    by (elim conjE)
  then have "(''order'', ''shipped'') \<noteq> (''user'', ''created'') \<longrightarrow>
      lookup (Register ''user'' ''created'' record_A ?s) ''order'' ''shipped'' =
      lookup ?s ''order'' ''shipped''"
    by (elim allE)
  with h have c1: "lookup (Register ''user'' ''created'' record_A ?s) ''order'' ''shipped'' =
      lookup ?s ''order'' ''shipped''"
    by (rule rev_mp)
  have c2: "lookup ?s ''order'' ''shipped'' = Some [failing_B]"
    by (simp add: lookup_Register handlers_at_New)
  show ?thesis
    by (rule conjI [OF h conjI [OF c1 c2]])
qed

subsection \<open>The text of an event\<close>

text \<open>
  C8, as the code has it. The text of an event is the record \<open>Event{Domain:\<close>, the
  quoted domain, \<open>, Action:\<close>, the quoted action, \<open>, RawParams:\<close>, the quoted payload
  (its bytes read as a string) and \<open>}\<close>, where quoted means Go's double-quoted, escaped
  form of a string. A field is quoted to itself between two double quotes, and so
  appears literally in the text, when it is valid UTF-8 whose characters are all
  printable and none of them the double quote or the backslash.
\<close>

theorem String_contains_quoted_fields:
  "String tbl d =
     ''Event{Domain:'' @ Quote tbl (Domain d) @ '', Action:'' @ Quote tbl (Action d)
     @ '', RawParams:'' @ Quote tbl (string_of_bytes (RawParams d)) @ ''}'' \<and>
   sublist (Quote tbl (Domain d)) (String tbl d) \<and>
   sublist (Quote tbl (Action d)) (String tbl d) \<and>
   sublist (Quote tbl (string_of_bytes (RawParams d))) (String tbl d) \<and>
   (unescaped tbl (Domain d) \<longrightarrow>
      Quote tbl (Domain d) = [CHR 0x22] @ Domain d @ [CHR 0x22] \<and>
      sublist (Domain d) (String tbl d)) \<and>
   (unescaped tbl (Action d) \<longrightarrow>
      Quote tbl (Action d) = [CHR 0x22] @ Action d @ [CHR 0x22] \<and>
      sublist (Action d) (String tbl d)) \<and>
   (unescaped tbl (string_of_bytes (RawParams d)) \<longrightarrow>
      Quote tbl (string_of_bytes (RawParams d)) =
        [CHR 0x22] @ string_of_bytes (RawParams d) @ [CHR 0x22] \<and>
      sublist (string_of_bytes (RawParams d)) (String tbl d))"
proof -
  have eq: "String tbl d =
     ''Event{Domain:'' @ Quote tbl (Domain d) @ '', Action:'' @ Quote tbl (Action d)
     @ '', RawParams:'' @ Quote tbl (string_of_bytes (RawParams d)) @ ''}''"
    by (simp only: String_def)
  have q1: "sublist (Quote tbl (Domain d)) (String tbl d)"
    by (simp only: String_split(1) sublist_appendI)
  have q2: "sublist (Quote tbl (Action d)) (String tbl d)"
    by (subst String_split(2)) (rule sublist_appendI)
  have q3: "sublist (Quote tbl (string_of_bytes (RawParams d))) (String tbl d)"
    by (subst String_split(3)) (rule sublist_appendI)
  have l1: "unescaped tbl (Domain d) \<longrightarrow>
      Quote tbl (Domain d) = [CHR 0x22] @ Domain d @ [CHR 0x22] \<and>
      sublist (Domain d) (String tbl d)"
  proof (intro impI conjI)
    assume u: "unescaped tbl (Domain d)"
    show "Quote tbl (Domain d) = [CHR 0x22] @ Domain d @ [CHR 0x22]"
      by (rule Quote_unescaped [OF u])
    show "sublist (Domain d) (String tbl d)"
      by (subst String_split(1)) (rule sublist_Quote_unescaped [OF u])
  qed
  have l2: "unescaped tbl (Action d) \<longrightarrow>
      Quote tbl (Action d) = [CHR 0x22] @ Action d @ [CHR 0x22] \<and>
      sublist (Action d) (String tbl d)"
  proof (intro impI conjI)
    assume u: "unescaped tbl (Action d)"
    show "Quote tbl (Action d) = [CHR 0x22] @ Action d @ [CHR 0x22]"
      by (rule Quote_unescaped [OF u])
    show "sublist (Action d) (String tbl d)"
      by (subst String_split(2)) (rule sublist_Quote_unescaped [OF u])
  qed
  have l3: "unescaped tbl (string_of_bytes (RawParams d)) \<longrightarrow>
      Quote tbl (string_of_bytes (RawParams d)) =
        [CHR 0x22] @ string_of_bytes (RawParams d) @ [CHR 0x22] \<and>
      sublist (string_of_bytes (RawParams d)) (String tbl d)"
  proof (intro impI conjI)
    assume u: "unescaped tbl (string_of_bytes (RawParams d))"
    show "Quote tbl (string_of_bytes (RawParams d)) =
        [CHR 0x22] @ string_of_bytes (RawParams d) @ [CHR 0x22]"
      by (rule Quote_unescaped [OF u])
    show "sublist (string_of_bytes (RawParams d)) (String tbl d)"
      by (subst String_split(3)) (rule sublist_Quote_unescaped [OF u])
  qed
  show ?thesis
    by (rule conjI [OF eq conjI [OF q1 conjI [OF q2 conjI [OF q3 conjI [OF l1 conjI [OF l2 l3]]]]]])
qed


theorem String_contains_quoted_fields_witness:
  "unescaped (\<lambda>r. r = 0xE9) (Domain cafe_event) \<and>
   unescaped (\<lambda>r. r = 0xE9) (Action cafe_event) \<and>
   unescaped (\<lambda>r. r = 0xE9) (string_of_bytes (RawParams cafe_event)) \<and>
   sublist [CHR ''c'', CHR ''a'', CHR ''f'', CHR 0xC3, CHR 0xA9]
     (String (\<lambda>r. r = 0xE9) cafe_event) \<and>
   sublist ''y'' (String (\<lambda>r. r = 0xE9) cafe_event) \<and>
   sublist ''abc'' (String (\<lambda>r. r = 0xE9) cafe_event)"
proof -
  have v: "Domain cafe_event = [CHR ''c'', CHR ''a'', CHR ''f'', CHR 0xC3, CHR 0xA9]"
      "Action cafe_event = ''y''"
      "string_of_bytes (RawParams cafe_event) = ''abc''"
    by (simp_all add: cafe_event_def string_of_bytes_def char_of_eq_iff)
  have h1: "unescaped (\<lambda>r. r = 0xE9) (Domain cafe_event)"
    by (simp add: v unescaped_ascii unescaped_e_acute)
  have h2: "unescaped (\<lambda>r. r = 0xE9) (Action cafe_event)"
    by (simp add: v unescaped_ascii unescaped_Nil)
  have h3: "unescaped (\<lambda>r. r = 0xE9) (string_of_bytes (RawParams cafe_event))"
    by (simp add: v unescaped_ascii unescaped_Nil)
  note inst = String_contains_quoted_fields [of "\<lambda>r. r = 0xE9" cafe_event]
  from inst h1 have c1: "sublist (Domain cafe_event) (String (\<lambda>r. r = 0xE9) cafe_event)"
    by (elim conjE) (erule (1) impE, erule conjunct2)
  from inst h2 have c2: "sublist (Action cafe_event) (String (\<lambda>r. r = 0xE9) cafe_event)"
    by (elim conjE) (erule (1) impE, erule conjunct2)
  from inst h3 have c3: "sublist (string_of_bytes (RawParams cafe_event))
      (String (\<lambda>r. r = 0xE9) cafe_event)"
    by (elim conjE) (erule (1) impE, erule conjunct2)
  from h1 h2 h3 c1 c2 c3 show ?thesis
    by (simp only: v simp_thms)
qed


theorem String_literal_counterexample:
  "\<not> sublist (Domain escaped_event) (String (\<lambda>r. True) escaped_event) \<and>
   \<not> sublist (string_of_bytes (RawParams escaped_event)) (String (\<lambda>r. True) escaped_event)"
  unfolding String_escaped_event
  by (simp add: sublist_code escaped_event_def string_of_bytes_def char_of_eq_iff)

end
